theory Spec2Isabelle
  imports Complex_Main
begin

section \<open>Streamline generator of windmap.py: data model\<close>

text \<open>
  The class \<^verbatim>\<open>Streamlines\<close> of \<^verbatim>\<open>src/code/showcases/windmap.py\<close> covers a velocity
  field sampled on a rectangular grid with polylines.  Python floats are idealised as
  real numbers: every arithmetic operation of the source is the exact operation on
  \<^typ>\<open>real\<close>.  The exceptions the source can raise are values of \<open>error\<close>:
  \<open>IndexError\<close> for an index outside an array, and \<open>NonFinite\<close> for \<^verbatim>\<open>int()\<close> of an
  infinity or a NaN (Python's OverflowError and ValueError).
\<close>

datatype error = IndexError | NonFinite

text \<open>
  The attributes of the object that are fixed once the constructor has stored them
  (lines 58 to 68): the two coordinate axes, the two velocity arrays (a list of rows,
  indexed row first), and the four parameters.  Coordinates given as two-dimensional
  meshes are reduced to their first row and their first column on lines 65 and 66; the
  model starts from the two axes.
\<close>

record streamlines_obj =
  self_x :: "real list"
  self_y :: "real list"
  self_u :: "real list list"
  self_v :: "real list list"
  self_res :: real
  self_spacing :: int
  self_maxLen :: int
  self_detectLoops :: bool

text \<open>
  The attributes that the outer loop mutates: the coverage mask \<^verbatim>\<open>self.used\<close> and the
  list \<^verbatim>\<open>self.streamlines\<close> of pairs of coordinate sequences.
\<close>

record gen_state =
  used :: "bool list list"
  streamlines :: "(real list \<times> real list) list"

section \<open>Arrays\<close>

text \<open>The number of columns of a two-dimensional array given as a list of rows.\<close>

definition ncols :: "'a list list \<Rightarrow> nat" where
  "ncols m = (case m of [] \<Rightarrow> 0 | r # _ \<Rightarrow> length r)"

text \<open>All rows of the array have \<open>nc\<close> entries and there are \<open>nr\<close> of them.\<close>

definition has_shape :: "'a list list \<Rightarrow> nat \<Rightarrow> nat \<Rightarrow> bool" where
  "has_shape m nr nc = (length m = nr \<and> list_all (\<lambda>r. length r = nc) m)"

text \<open>
  Integer indexing of one axis of size \<open>n\<close>: a negative index counts from the end, an
  index outside \<open>-n .. n-1\<close> raises IndexError (here \<open>None\<close>).
\<close>

definition np_index :: "nat \<Rightarrow> int \<Rightarrow> nat option" where
  "np_index n k =
     (if 0 \<le> k \<and> k < int n then Some (nat k)
      else if - int n \<le> k \<and> k < 0 then Some (nat (k + int n))
      else None)"

text \<open>The read \<^verbatim>\<open>m[j, i]\<close>.\<close>

definition get2 :: "'a list list \<Rightarrow> int \<Rightarrow> int \<Rightarrow> 'a option" where
  "get2 m j i =
     (case np_index (length m) j of
        None \<Rightarrow> None
      | Some r \<Rightarrow>
          (case np_index (length (m ! r)) i of
             None \<Rightarrow> None
           | Some c \<Rightarrow> Some (m ! r ! c)))"

text \<open>
  The bounds of a slice \<^verbatim>\<open>a:b\<close> on an axis of size \<open>n\<close>: a negative bound counts from the
  end, and both bounds are clipped to \<open>0 .. n\<close>.  The slice selects nothing when the
  upper bound does not exceed the lower one.
\<close>

definition slice_clip :: "nat \<Rightarrow> int \<Rightarrow> nat" where
  "slice_clip n k = (if k < 0 then nat (max (k + int n) 0) else nat (min k (int n)))"

definition slice_range :: "nat \<Rightarrow> int \<Rightarrow> int \<Rightarrow> nat list" where
  "slice_range n a b = [slice_clip n a ..< slice_clip n b]"

text \<open>
  The assignment \<^verbatim>\<open>used[rows, cols] = True\<close> for a selection of rows and of columns:
  the selected cells become true and every other cell keeps its value.
\<close>

definition set_block :: "bool list list \<Rightarrow> nat list \<Rightarrow> nat list \<Rightarrow> bool list list" where
  "set_block m rows cols =
     map (\<lambda>r. if r \<in> set rows
              then map (\<lambda>c. if c \<in> set cols then True else m ! r ! c) [0 ..< length (m ! r)]
              else m ! r)
         [0 ..< length m]"

text \<open>\<^verbatim>\<open>used.all()\<close>, the number of true cells and the number of false cells.\<close>

definition all_used :: "bool list list \<Rightarrow> bool" where
  "all_used m = list_all (list_all (\<lambda>b. b)) m"

definition count_true :: "bool list list \<Rightarrow> nat" where
  "count_true m = sum_list (map (\<lambda>r. length (filter (\<lambda>b. b) r)) m)"


text \<open>
  \<^verbatim>\<open>np.transpose(np.logical_not(used).nonzero())\<close>: the index pairs (row, column) of the
  false cells, which numpy returns in row-major order.
\<close>

definition unused_cells :: "bool list list \<Rightarrow> (nat \<times> nat) list" where
  "unused_cells m =
     concat (map (\<lambda>r. map (\<lambda>c. (r, c)) (filter (\<lambda>c. \<not> m ! r ! c) [0 ..< length (m ! r)]))
                 [0 ..< length m])"

section \<open>The constructor up to the seeding loop\<close>

text \<open>
  \<^verbatim>\<open>self.dx\<close>, \<^verbatim>\<open>self.dy\<close> and \<^verbatim>\<open>self.dr\<close> (lines 69 to 71) are computed once from attributes
  that are never assigned again, so they are functions of the object.  On an axis with
  a single point numpy divides zero by zero and stores a NaN (with a warning); here
  the quotient is \<open>0\<close>, and \<open>interp\<close> treats a zero step as the non-finite case.
  \<^verbatim>\<open>np.sqrt\<close> of a negative product is a NaN as well; \<^verbatim>\<open>self.dr\<close> is read only under
  the guard of line 153, where both steps are positive.
\<close>

definition dx :: "streamlines_obj \<Rightarrow> real" where
  "dx s = (last (self_x s) - hd (self_x s)) / real (length (self_x s) - 1)"

definition dy :: "streamlines_obj \<Rightarrow> real" where
  "dy s = (last (self_y s) - hd (self_y s)) / real (length (self_y s) - 1)"

definition dr :: "streamlines_obj \<Rightarrow> real" where
  "dr s = self_res s * sqrt (dx s * dy s)"

text \<open>
  Lines 74 to 78: a mask of the shape of \<^verbatim>\<open>self.u\<close>, all false, then the first and last
  row and the first and last column set.  \<^verbatim>\<open>used[0]\<close> raises on an array without rows
  and \<^verbatim>\<open>used[:, 0]\<close> on one without columns.
\<close>

definition border_mask :: "real list list \<Rightarrow> error + bool list list" where
  "border_mask U =
     (let nr = length U; nc = ncols U;
          zeros = map (\<lambda>r. map (\<lambda>_. False) r) U
      in if nr = 0 \<or> nc = 0 then Inl IndexError
         else Inr (set_block (set_block (set_block (set_block zeros
                     [0] [0 ..< nc]) [nr - 1] [0 ..< nc]) [0 ..< nr] [0]) [0 ..< nr] [nc - 1]))"

text \<open>
  A loop over a range whose body may raise: the first exception ends the loop.
\<close>

fun for_each :: "('a \<Rightarrow> 's \<Rightarrow> error + 's) \<Rightarrow> 'a list \<Rightarrow> 's \<Rightarrow> error + 's" where
  "for_each f [] st = Inr st"
| "for_each f (a # as) st = (case f a st of Inl e \<Rightarrow> Inl e | Inr st' \<Rightarrow> for_each f as st')"

text \<open>
  Lines 81 to 84, the body for one pair of indices: the cell is set when both velocity
  components are zero; \<^verbatim>\<open>and\<close> reads \<^verbatim>\<open>v[j, i]\<close> only when \<^verbatim>\<open>u[j, i]\<close> is zero.
\<close>

definition mark_zero_cell ::
  "streamlines_obj \<Rightarrow> nat \<Rightarrow> nat \<Rightarrow> bool list list \<Rightarrow> error + bool list list" where
  "mark_zero_cell s i j m =
     (case get2 (self_u s) (int j) (int i) of
        None \<Rightarrow> Inl IndexError
      | Some a \<Rightarrow>
          if a \<noteq> 0 then Inr m
          else (case get2 (self_v s) (int j) (int i) of
                  None \<Rightarrow> Inl IndexError
                | Some b \<Rightarrow> if b = 0 then Inr (set_block m [j] [i]) else Inr m))"

definition mark_zero :: "streamlines_obj \<Rightarrow> bool list list \<Rightarrow> error + bool list list" where
  "mark_zero s m =
     for_each (\<lambda>i. for_each (\<lambda>j. mark_zero_cell s i j) [0 ..< length (self_y s)])
              [0 ..< length (self_x s)] m"

text \<open>
  The mask on entry to the seeding loop.  \<^verbatim>\<open>self.x[-1]\<close> and \<^verbatim>\<open>self.y[-1]\<close> on line 69
  and 70 raise on an empty axis.
\<close>

definition init_used :: "streamlines_obj \<Rightarrow> error + bool list list" where
  "init_used s =
     (if self_x s = [] \<or> self_y s = [] then Inl IndexError
      else (case border_mask (self_u s) of
              Inl e \<Rightarrow> Inl e
            | Inr m \<Rightarrow> mark_zero s m))"

section \<open>Interpolation\<close>

text \<open>Python's \<^verbatim>\<open>int()\<close> of a finite float truncates towards zero.\<close>

definition trunc :: "real \<Rightarrow> int" where
  "trunc r = (if 0 \<le> r then \<lfloor>r\<rfloor> else \<lceil>r\<rceil>)"

text \<open>
  The weighted sum of lines 106 to 111 on one array; any of the four reads may raise.
\<close>

definition bilinear :: "real list list \<Rightarrow> int \<Rightarrow> int \<Rightarrow> real \<Rightarrow> real \<Rightarrow> real option" where
  "bilinear m j i ai aj =
     (case get2 m j i of None \<Rightarrow> None | Some a \<Rightarrow>
      case get2 m j (i + 1) of None \<Rightarrow> None | Some b \<Rightarrow>
      case get2 m (j + 1) i of None \<Rightarrow> None | Some c \<Rightarrow>
      case get2 m (j + 1) (i + 1) of None \<Rightarrow> None | Some d \<Rightarrow>
        Some (a * (1 - ai) * (1 - aj) + b * ai * (1 - aj) + c * (1 - ai) * aj + d * ai * aj))"

text \<open>
  The integer indices that \<^verbatim>\<open>_interp\<close> computes on lines 97 to 103, column first.
\<close>

definition interp_index :: "streamlines_obj \<Rightarrow> real \<Rightarrow> real \<Rightarrow> int \<times> int" where
  "interp_index s px py =
     (trunc ((px - hd (self_x s)) / dx s), trunc ((py - hd (self_y s)) / dy s))"

text \<open>
  \<^verbatim>\<open>_interp\<close>: the velocity at a point and the mask after line 120.  \<^verbatim>\<open>i % 1\<close> of a float
  is its fractional part in \<open>[0, 1)\<close>, also for a negative \<open>i\<close>.  \<^verbatim>\<open>self.x[0]\<close> raises on
  an empty axis; with a zero (or NaN) step the quotient is not finite and \<^verbatim>\<open>int()\<close>
  raises.
\<close>

definition interp ::
  "streamlines_obj \<Rightarrow> bool list list \<Rightarrow> real \<Rightarrow> real \<Rightarrow> error + ((real \<times> real) \<times> bool list list)" where
  "interp s m px py =
     (if self_x s = [] \<or> self_y s = [] then Inl IndexError
      else if dx s = 0 \<or> dy s = 0 then Inl NonFinite
      else
        let fi = (px - hd (self_x s)) / dx s; ai = frac fi;
            fj = (py - hd (self_y s)) / dy s; aj = frac fj;
            i = trunc fi; j = trunc fj
        in case bilinear (self_u s) j i ai aj of
             None \<Rightarrow> Inl IndexError
           | Some uu \<Rightarrow>
               (case bilinear (self_v s) j i ai aj of
                  None \<Rightarrow> Inl IndexError
                | Some vv \<Rightarrow>
                    Inr ((uu, vv),
                         set_block m (slice_range (length m) j (j + self_spacing s))
                                     (slice_range (ncols m) i (i + self_spacing s)))))"

section \<open>Growing a streamline\<close>

text \<open>
  \<^verbatim>\<open>np.arctan2(v, u)\<close> on real numbers (the sign of a zero is not modelled).
\<close>

definition arctan2 :: "real \<Rightarrow> real \<Rightarrow> real" where
  "arctan2 b a =
     (if 0 < a then arctan (b / a)
      else if a < 0 \<and> 0 \<le> b then arctan (b / a) + pi
      else if a < 0 then arctan (b / a) - pi
      else if 0 < b then pi / 2
      else if b < 0 then - (pi / 2)
      else 0)"

text \<open>
  The loop guard of line 153, with the bounds that lines 142 to 145 read (which raise
  on an empty axis, see \<open>makeHalfStreamline\<close>).
\<close>

definition inside :: "streamlines_obj \<Rightarrow> real \<Rightarrow> real \<Rightarrow> bool" where
  "inside s px py =
     (hd (self_x s) < px \<and> px < last (self_x s) \<and> hd (self_y s) < py \<and> py < last (self_y s))"

text \<open>
  \<^verbatim>\<open>_detectLoop\<close>: whether the newest point is closer than \<open>0.9 dr\<close> to an earlier one.
\<close>

definition detectLoop :: "streamlines_obj \<Rightarrow> real list \<Rightarrow> real list \<Rightarrow> bool" where
  "detectLoop s xVals yVals =
     list_ex (\<lambda>(xj, yj). sqrt ((last xVals - xj)\<^sup>2 + (last yVals - yj)\<^sup>2) < 0.9 * dr s)
             (zip (butlast xVals) (butlast yVals))"

text \<open>Lines 154 to 158: one interpolation and the step along the flow direction.\<close>

definition advance ::
  "streamlines_obj \<Rightarrow> real \<Rightarrow> real \<Rightarrow> real \<Rightarrow> bool list list \<Rightarrow> error + (real \<times> real \<times> bool list list)" where
  "advance s sign px py m =
     (case interp s m px py of
        Inl e \<Rightarrow> Inl e
      | Inr (uv, m') \<Rightarrow>
          let theta = arctan2 (snd uv) (fst uv)
          in Inr (px + sign * dr s * cos theta, py + sign * dr s * sin theta, m'))"

text \<open>
  The two \<^verbatim>\<open>break\<close> statements of lines 164 to 168, for the step count and the point
  lists after the append; \<^verbatim>\<open>self.maxLen / 2\<close> is a true division.
\<close>

definition stops :: "streamlines_obj \<Rightarrow> int \<Rightarrow> real list \<Rightarrow> real list \<Rightarrow> bool" where
  "stops s i sx sy =
     ((self_detectLoops s \<and> i mod 10 = 0 \<and> detectLoop s sx sy)
      \<or> real_of_int i > real_of_int (self_maxLen s) / 2)"

text \<open>
  The while loop of \<^verbatim>\<open>_makeHalfStreamline\<close> from the state (position, step count, the
  two lists, the mask).  The step count grows by one per round and a round beyond
  \<open>maxLen / 2\<close> breaks, which bounds the loop.
\<close>

function half_loop ::
  "streamlines_obj \<Rightarrow> real \<Rightarrow> real \<Rightarrow> real \<Rightarrow> int \<Rightarrow> real list \<Rightarrow> real list \<Rightarrow> bool list list
     \<Rightarrow> error + (real list \<times> real list \<times> bool list list)" where
  "half_loop s sign px py i sx sy m =
     (if inside s px py then
        (case advance s sign px py m of
           Inl e \<Rightarrow> Inl e
         | Inr (px', py', m') \<Rightarrow>
             if stops s (i + 1) (sx @ [px']) (sy @ [py'])
             then Inr (sx @ [px'], sy @ [py'], m')
             else half_loop s sign px' py' (i + 1) (sx @ [px']) (sy @ [py']) m')
      else Inr (sx, sy, m))"
  by pat_completeness auto
termination
  by (relation "measure (\<lambda>(s, sign, px, py, i, sx, sy, m). nat (self_maxLen s - 2 * i))")
     (auto simp: stops_def)

definition makeHalfStreamline ::
  "streamlines_obj \<Rightarrow> bool list list \<Rightarrow> real \<Rightarrow> real \<Rightarrow> real
     \<Rightarrow> error + (real list \<times> real list \<times> bool list list)" where
  "makeHalfStreamline s m x0 y0 sign =
     (if self_x s = [] \<or> self_y s = [] then Inl IndexError
      else half_loop s sign x0 y0 0 [] [] m)"

text \<open>
  \<^verbatim>\<open>_makeStreamline\<close>: forwards, then backwards on the mask the forward half left, then
  the reversed backward points, the seed and the forward points.
\<close>

definition makeStreamline ::
  "streamlines_obj \<Rightarrow> bool list list \<Rightarrow> real \<Rightarrow> real
     \<Rightarrow> error + ((real list \<times> real list) \<times> bool list list)" where
  "makeStreamline s m x0 y0 =
     (case makeHalfStreamline s m x0 y0 1 of
        Inl e \<Rightarrow> Inl e
      | Inr (sx, sy, m1) \<Rightarrow>
          (case makeHalfStreamline s m1 x0 y0 (- 1) of
             Inl e \<Rightarrow> Inl e
           | Inr (rx, ry, m2) \<Rightarrow> Inr ((rev rx @ [x0] @ sx, rev ry @ [y0] @ sy), m2)))"

section \<open>The seeding loop\<close>

text \<open>
  Line 92: the seed is \<^verbatim>\<open>(x[nz[0][1]], y[nz[0][0]])\<close>; the indices are not negative, so a
  read raises exactly when the index is not below the size of the axis.
\<close>

definition seed_point :: "streamlines_obj \<Rightarrow> bool list list \<Rightarrow> error + (real \<times> real)" where
  "seed_point s m =
     (case unused_cells m of
        [] \<Rightarrow> Inl IndexError
      | (r, c) # _ \<Rightarrow>
          if c < length (self_x s) \<and> r < length (self_y s)
          then Inr (self_x s ! c, self_y s ! r)
          else Inl IndexError)"

text \<open>One round of the loop body, lines 89 to 93.\<close>

definition seed_step :: "streamlines_obj \<Rightarrow> gen_state \<Rightarrow> error + gen_state" where
  "seed_step s st =
     (case seed_point s (used st) of
        Inl e \<Rightarrow> Inl e
      | Inr (x0, y0) \<Rightarrow>
          (case makeStreamline s (used st) x0 y0 of
             Inl e \<Rightarrow> Inl e
           | Inr (line, m') \<Rightarrow> Inr \<lparr>used = m', streamlines = streamlines st @ [line]\<rparr>))"

text \<open>
  The while loop of line 88.  Nothing in the source bounds it, so it is a partial
  function: \<open>None\<close> is a run that never leaves the loop, \<open>Some (Inl e)\<close> a run that
  raises, \<open>Some (Inr st)\<close> a run that ends in the state \<open>st\<close>.  Each round appends
  a streamline to the list; the memory this takes is not modelled.
\<close>

partial_function (option) seeding_loop ::
  "streamlines_obj \<Rightarrow> gen_state \<Rightarrow> (error + gen_state) option" where
  "seeding_loop s st =
     (if all_used (used st) then Some (Inr st)
      else (case seed_step s st of
              Inl e \<Rightarrow> Some (Inl e)
            | Inr st' \<Rightarrow> seeding_loop s st'))"

text \<open>The constructor \<^verbatim>\<open>Streamlines.__init__\<close> on the stored attributes.\<close>

definition Streamlines_init :: "streamlines_obj \<Rightarrow> (error + gen_state) option" where
  "Streamlines_init s =
     (case init_used s of
        Inl e \<Rightarrow> Some (Inl e)
      | Inr m \<Rightarrow> seeding_loop s \<lparr>used = m, streamlines = []\<rparr>)"

section \<open>Predicates on inputs and states\<close>

text \<open>
  One mask lies below another when both have the same shape and every cell that is
  true in the first is true in the second.
\<close>

definition mask_le :: "bool list list \<Rightarrow> bool list list \<Rightarrow> bool" where
  "mask_le a b = list_all2 (list_all2 (\<lambda>p q. p \<longrightarrow> q)) a b"

text \<open>
  The axes are not empty and both velocity arrays have one row per y coordinate and
  one column per x coordinate.
\<close>

definition well_formed :: "streamlines_obj \<Rightarrow> bool" where
  "well_formed s =
     (self_x s \<noteq> [] \<and> self_y s \<noteq> []
      \<and> has_shape (self_u s) (length (self_y s)) (length (self_x s))
      \<and> has_shape (self_v s) (length (self_y s)) (length (self_x s)))"

text \<open>
  Strictly increasing coordinates, strictly decreasing coordinates, and coordinates
  with a constant step.
\<close>

definition increasing :: "real list \<Rightarrow> bool" where
  "increasing xs = sorted_wrt (<) xs"

definition falling :: "real list \<Rightarrow> bool" where
  "falling xs = sorted_wrt (\<lambda>a b. b < a) xs"



text \<open>Every cell of the first or last row or column is true.\<close>

definition border_covered :: "bool list list \<Rightarrow> bool" where
  "border_covered m =
     list_all (\<lambda>r. list_all (\<lambda>c. (r = 0 \<or> r + 1 = length m \<or> c = 0 \<or> c + 1 = length (m ! r))
                                   \<longrightarrow> m ! r ! c)
                            [0 ..< length (m ! r)])
              [0 ..< length m]"

text \<open>
  A state whose mask lies above the mask the constructor builds before the loop; every
  state of the seeding loop is one.
\<close>

definition covers_initial :: "streamlines_obj \<Rightarrow> gen_state \<Rightarrow> bool" where
  "covers_initial s st = (case init_used s of Inl e \<Rightarrow> False | Inr m0 \<Rightarrow> mask_le m0 (used st))"

text \<open>The rows and the columns that line 120 selects for a call at a point.\<close>

definition seed_rows :: "streamlines_obj \<Rightarrow> bool list list \<Rightarrow> real \<Rightarrow> real \<Rightarrow> nat list" where
  "seed_rows s m px py =
     slice_range (length m) (snd (interp_index s px py)) (snd (interp_index s px py) + self_spacing s)"

definition seed_cols :: "streamlines_obj \<Rightarrow> bool list list \<Rightarrow> real \<Rightarrow> real \<Rightarrow> nat list" where
  "seed_cols s m px py =
     slice_range (ncols m) (fst (interp_index s px py)) (fst (interp_index s px py) + self_spacing s)"

text \<open>All points of a pair of coordinate lists but the last one pass the loop guard.\<close>

definition all_but_last_inside :: "streamlines_obj \<Rightarrow> real list \<Rightarrow> real list \<Rightarrow> bool" where
  "all_but_last_inside s xs ys = (\<forall>k. k + 1 < length xs \<longrightarrow> inside s (xs ! k) (ys ! k))"


section \<open>Runs as a relation\<close>

text \<open>
  The seeding loop once more, as the relation between a state on entry and the outcome
  of a run from it: the loop is left when the mask is full, an exception of the body
  ends the run, and otherwise the run goes on from the state the body leaves.
\<close>

inductive seeding_run :: "streamlines_obj \<Rightarrow> gen_state \<Rightarrow> error + gen_state \<Rightarrow> bool"
  for s :: streamlines_obj where
  run_full: "all_used (used st) \<Longrightarrow> seeding_run s st (Inr st)"
| run_raise: "\<not> all_used (used st) \<Longrightarrow> seed_step s st = Inl e \<Longrightarrow> seeding_run s st (Inl e)"
| run_step: "\<not> all_used (used st) \<Longrightarrow> seed_step s st = Inr st' \<Longrightarrow> seeding_run s st' res
               \<Longrightarrow> seeding_run s st res"


section \<open>Example inputs\<close>

text \<open>
  A grid of three by three points with the y axis \<open>0, 1, 2\<close> and the uniform velocity
  \<open>(1, 0)\<close>; the x axis, the resolution, the spacing and the length cap vary.  Loop
  detection is off, as by default.  All its numbers are small binary fractions, on
  which floating-point arithmetic is exact; \<^verbatim>\<open>arctan2(0.0, 1.0)\<close> is \<open>0.0\<close>, whose cosine
  is \<open>1.0\<close> and whose sine is \<open>0.0\<close>.
\<close>

definition grid3 :: "real list \<Rightarrow> real \<Rightarrow> int \<Rightarrow> int \<Rightarrow> streamlines_obj" where
  "grid3 xs r sp ml =
     \<lparr>self_x = xs, self_y = [0, 1, 2],
      self_u = [[1, 1, 1], [1, 1, 1], [1, 1, 1]],
      self_v = [[0, 0, 0], [0, 0, 0], [0, 0, 0]],
      self_res = r, self_spacing = sp, self_maxLen = ml, self_detectLoops = False\<rparr>"

text \<open>The mask of that grid on entry to the loop, and the full mask.\<close>

definition ring3 :: "bool list list" where
  "ring3 = [[True, True, True], [True, False, True], [True, True, True]]"

definition full3 :: "bool list list" where
  "full3 = [[True, True, True], [True, True, True], [True, True, True]]"




section \<open>Lemmas\<close>

declare half_loop.simps [simp del]

subsection \<open>Masks\<close>

lemma length_set_block [simp]: "length (set_block m R C) = length m"
  by (simp add: set_block_def)

lemma length_set_block_row [simp]:
  "r < length m \<Longrightarrow> length (set_block m R C ! r) = length (m ! r)"
  by (simp add: set_block_def)

lemma set_block_nth:
  "r < length m \<Longrightarrow> c < length (m ! r) \<Longrightarrow>
   set_block m R C ! r ! c = (m ! r ! c \<or> (r \<in> set R \<and> c \<in> set C))"
  by (simp add: set_block_def)

lemma has_shape_ncols: "has_shape m nr nc \<Longrightarrow> 0 < nr \<Longrightarrow> ncols m = nc"
  by (cases m) (auto simp: has_shape_def ncols_def)

lemma has_shape_set_block: "has_shape m nr nc \<Longrightarrow> has_shape (set_block m R C) nr nc"
  by (simp add: has_shape_def list_all_length)

lemma mask_le_iff:
  "mask_le a b \<longleftrightarrow>
     length a = length b \<and>
     (\<forall>r < length a. length (a ! r) = length (b ! r) \<and> (\<forall>c < length (a ! r). a ! r ! c \<longrightarrow> b ! r ! c))"
  by (auto simp: mask_le_def list_all2_conv_all_nth)

lemma mask_le_refl: "mask_le a a"
  by (simp add: mask_le_iff)

lemma mask_le_trans: "mask_le a b \<Longrightarrow> mask_le b c \<Longrightarrow> mask_le a c"
  by (auto simp: mask_le_iff)

lemma mask_le_set_block: "mask_le m (set_block m R C)"
  by (simp add: mask_le_iff set_block_nth)

lemma mask_le_shape: "mask_le a b \<Longrightarrow> has_shape a nr nc \<Longrightarrow> has_shape b nr nc"
  by (auto simp: mask_le_iff has_shape_def list_all_length)









lemma all_used_iff:
  "all_used m \<longleftrightarrow> (\<forall>r < length m. \<forall>c < length (m ! r). m ! r ! c)"
  by (simp add: all_used_def list_all_length)

lemma unused_cells_set:
  "set (unused_cells m) = {(r, c). r < length m \<and> c < length (m ! r) \<and> \<not> m ! r ! c}"
  by (auto simp: unused_cells_def)

lemma unused_cells_Nil: "unused_cells m = [] \<longleftrightarrow> all_used m"
proof -
  have "unused_cells m = [] \<longleftrightarrow> set (unused_cells m) = {}" by simp
  also have "\<dots> \<longleftrightarrow> all_used m"
    unfolding unused_cells_set all_used_iff by auto
  finally show ?thesis .
qed

subsection \<open>Row-major order of the unused cells\<close>

lemma unused_row_sorted:
  "sorted_wrt (\<lambda>p q. fst p < fst q \<or> (fst p = fst q \<and> snd p < snd q))
     (map (\<lambda>c. (r::nat, c)) (filter P [0 ..< k]))"
proof -
  have "sorted_wrt (<) (filter P [0 ..< k])"
    by (rule sorted_wrt_filter) simp
  then show ?thesis by (simp add: sorted_wrt_map less_irrefl)
qed

lemma unused_cells_sorted_aux:
  "sorted_wrt (\<lambda>p q. fst p < fst q \<or> (fst p = fst q \<and> snd p < snd q))
     (concat (map (\<lambda>r. map (\<lambda>c. (r, c)) (filter (\<lambda>c. \<not> m ! r ! c) [0 ..< length (m ! r)])) [0 ..< n]))"
proof (induction n)
  case 0
  then show ?case by simp
next
  case (Suc n)
  show ?case
    using Suc unused_row_sorted [of n "\<lambda>c. \<not> m ! n ! c" "length (m ! n)"]
    by (auto simp: sorted_wrt_append)
qed

lemma unused_cells_sorted:
  "sorted_wrt (\<lambda>p q. fst p < fst q \<or> (fst p = fst q \<and> snd p < snd q)) (unused_cells m)"
  unfolding unused_cells_def by (rule unused_cells_sorted_aux)

lemma unused_cells_first:
  assumes "unused_cells m = (r, c) # rest"
  shows "r < length m" "c < length (m ! r)" "\<not> m ! r ! c"
    and "\<And>r' c'. r' < length m \<Longrightarrow> c' < length (m ! r') \<Longrightarrow> \<not> m ! r' ! c'
            \<Longrightarrow> r < r' \<or> (r = r' \<and> c \<le> c')"
proof -
  have "(r, c) \<in> set (unused_cells m)" using assms by simp
  then show "r < length m" "c < length (m ! r)" "\<not> m ! r ! c"
    by (simp_all add: unused_cells_set)
next
  fix r' c'
  assume "r' < length m" "c' < length (m ! r')" "\<not> m ! r' ! c'"
  then have "(r', c') \<in> set (unused_cells m)" by (simp add: unused_cells_set)
  then have "(r', c') = (r, c) \<or> (r', c') \<in> set rest" using assms by simp
  moreover have "\<forall>q \<in> set rest. r < fst q \<or> (r = fst q \<and> c < snd q)"
    using unused_cells_sorted [of m] assms by simp
  ultimately show "r < r' \<or> (r = r' \<and> c \<le> c')" by auto
qed

subsection \<open>Indices inside the bounding box\<close>



lemma get2_in_range:
  "0 \<le> j \<Longrightarrow> j < int nr \<Longrightarrow> 0 \<le> i \<Longrightarrow> i < int nc \<Longrightarrow> has_shape m nr nc \<Longrightarrow>
   get2 m j i = Some (m ! nat j ! nat i)"
  by (simp add: get2_def np_index_def has_shape_def list_all_length)




subsection \<open>The loop of a half streamline\<close>

lemma interp_mask:
  "interp s m px py = Inr (uv, m') \<Longrightarrow> m' = set_block m (seed_rows s m px py) (seed_cols s m px py)"
  by (auto simp: interp_def interp_index_def seed_rows_def seed_cols_def Let_def
           split: if_splits option.splits)

lemma advance_mask:
  "advance s sign px py m = Inr (px', py', m') \<Longrightarrow>
     m' = set_block m (seed_rows s m px py) (seed_cols s m px py)"
  by (auto simp: advance_def Let_def split: sum.splits dest: interp_mask)



lemma half_loop_outside:
  "\<not> inside s px py \<Longrightarrow> half_loop s sign px py i sx sy m = Inr (sx, sy, m)"
  by (subst half_loop.simps) simp


lemma half_loop_length:
  "half_loop s sign px py i sx sy m = Inr (sx', sy', m') \<Longrightarrow>
   length sx \<le> length sx' \<and> (inside s px py \<longrightarrow> length sx < length sx')
   \<and> (length sx = length sy \<longrightarrow> length sx' = length sy')"
proof (induction s sign px py i sx sy m rule: half_loop.induct)
  case (1 s sign px py i sx sy m)
  show ?case
  proof (cases "inside s px py")
    case False
    then show ?thesis using "1.prems" by (simp add: half_loop_outside)
  next
    case True
    from "1.prems" True obtain px' py' m1 where adv: "advance s sign px py m = Inr (px', py', m1)"
      by (subst (asm) half_loop.simps) (auto split: sum.splits)
    show ?thesis
    proof (cases "stops s (i + 1) (sx @ [px']) (sy @ [py'])")
      case True
      then show ?thesis
        using \<open>inside s px py\<close> adv "1.prems" by (subst (asm) half_loop.simps) auto
    next
      case False
      then have "half_loop s sign px' py' (i + 1) (sx @ [px']) (sy @ [py']) m1 = Inr (sx', sy', m')"
        using "1.prems" True adv by (subst (asm) half_loop.simps) simp
      from "1.IH" [OF True adv refl refl False this] show ?thesis by auto
    qed
  qed
qed

lemma half_loop_points:
  "half_loop s sign px py i sx sy m = Inr (sx', sy', m') \<Longrightarrow>
   length sx = length sy \<Longrightarrow> all_but_last_inside s sx sy \<Longrightarrow>
   (sx \<noteq> [] \<longrightarrow> last sx = px \<and> last sy = py) \<Longrightarrow>
   all_but_last_inside s sx' sy'"
proof (induction s sign px py i sx sy m rule: half_loop.induct)
  case (1 s sign px py i sx sy m)
  show ?case
  proof (cases "inside s px py")
    case False
    then show ?thesis using "1.prems" by (simp add: half_loop_outside)
  next
    case True
    from "1.prems"(1) True obtain px' py' m1 where adv: "advance s sign px py m = Inr (px', py', m1)"
      by (subst (asm) half_loop.simps) (auto split: sum.splits)
    have ext: "all_but_last_inside s (sx @ [px']) (sy @ [py'])"
      unfolding all_but_last_inside_def
    proof (intro allI impI)
      fix k assume k: "k + 1 < length (sx @ [px'])"
      then have kl: "k < length sx" by simp
      show "inside s ((sx @ [px']) ! k) ((sy @ [py']) ! k)"
      proof (cases "k + 1 < length sx")
        case True
        then show ?thesis
          using "1.prems"(2,3) kl by (simp add: all_but_last_inside_def nth_append)
      next
        case False
        then have ke: "k = length sx - 1" "sx \<noteq> []" using kl by auto
        then have "sy \<noteq> []" using "1.prems"(2) by auto
        then have "sx ! k = last sx" "sy ! k = last sy"
          using ke "1.prems"(2) by (simp_all add: last_conv_nth)
        then have "sx ! k = px" "sy ! k = py"
          using "1.prems"(4) ke by simp_all
        then show ?thesis
          using \<open>inside s px py\<close> kl "1.prems"(2) by (simp add: nth_append)
      qed
    qed
    show ?thesis
    proof (cases "stops s (i + 1) (sx @ [px']) (sy @ [py'])")
      case True
      then have "sx' = sx @ [px']" "sy' = sy @ [py']"
        using \<open>inside s px py\<close> adv "1.prems"(1) by (subst (asm) half_loop.simps, simp)+
      then show ?thesis using ext by simp
    next
      case False
      then have "half_loop s sign px' py' (i + 1) (sx @ [px']) (sy @ [py']) m1 = Inr (sx', sy', m')"
        using "1.prems"(1) True adv by (subst (asm) half_loop.simps) simp
      from "1.IH" [OF True adv refl refl False this _ ext] "1.prems"(2) show ?thesis by simp
    qed
  qed
qed

subsection \<open>Streamlines\<close>

lemma half_loop_mask_le:
  "half_loop s sign px py i sx sy m = Inr (sx', sy', m') \<Longrightarrow> mask_le m m'"
proof (induction s sign px py i sx sy m rule: half_loop.induct)
  case (1 s sign px py i sx sy m)
  show ?case
  proof (cases "inside s px py")
    case False
    then show ?thesis using "1.prems" by (simp add: half_loop_outside mask_le_refl)
  next
    case True
    from "1.prems" True obtain px' py' m1 where adv: "advance s sign px py m = Inr (px', py', m1)"
      by (subst (asm) half_loop.simps) (auto split: sum.splits)
    have le1: "mask_le m m1" using advance_mask [OF adv] by (simp add: mask_le_set_block)
    show ?thesis
    proof (cases "stops s (i + 1) (sx @ [px']) (sy @ [py'])")
      case True
      then have "m' = m1"
        using \<open>inside s px py\<close> adv "1.prems" by (subst (asm) half_loop.simps) simp
      then show ?thesis using le1 by simp
    next
      case False
      then have "half_loop s sign px' py' (i + 1) (sx @ [px']) (sy @ [py']) m1 = Inr (sx', sy', m')"
        using "1.prems" True adv by (subst (asm) half_loop.simps) simp
      from "1.IH" [OF True adv refl refl False this] le1 show ?thesis
        by (blast intro: mask_le_trans)
    qed
  qed
qed

lemma makeHalfStreamline_mask_le:
  "makeHalfStreamline s m x0 y0 sign = Inr (sx, sy, m') \<Longrightarrow> mask_le m m'"
  by (auto simp: makeHalfStreamline_def split: if_splits dest: half_loop_mask_le)


lemma makeHalfStreamline_points:
  assumes "makeHalfStreamline s m x0 y0 sign = Inr (sx, sy, m')"
  shows "length sx = length sy" "all_but_last_inside s sx sy"
    and "inside s x0 y0 \<Longrightarrow> sx \<noteq> []" and "\<not> inside s x0 y0 \<Longrightarrow> sx = []"
proof -
  have hl: "half_loop s sign x0 y0 0 [] [] m = Inr (sx, sy, m')"
    using assms by (simp add: makeHalfStreamline_def split: if_splits)
  show "length sx = length sy" using half_loop_length [OF hl] by simp
  show "all_but_last_inside s sx sy"
    using half_loop_points [OF hl] by (simp add: all_but_last_inside_def)
  show "inside s x0 y0 \<Longrightarrow> sx \<noteq> []" using half_loop_length [OF hl] by auto
  show "\<not> inside s x0 y0 \<Longrightarrow> sx = []" using hl by (simp add: half_loop_outside)
qed



lemma makeStreamline_mask_le:
  assumes "makeStreamline s m x0 y0 = Inr (line, m')"
  shows "mask_le m m'"
proof -
  from assms obtain sx sy m1 rx ry where
      f: "makeHalfStreamline s m x0 y0 1 = Inr (sx, sy, m1)"
    and b: "makeHalfStreamline s m1 x0 y0 (- 1) = Inr (rx, ry, m')"
    by (auto simp: makeStreamline_def split: sum.splits)
  have "mask_le m m1" "mask_le m1 m'"
    using f b by (auto dest: makeHalfStreamline_mask_le)
  then show ?thesis by (rule mask_le_trans)
qed

lemma rev_nth_inside:
  assumes "all_but_last_inside s rx ry" "length rx = length ry" "0 < k" "k < length rx"
  shows "inside s (rev rx ! k) (rev ry ! k)"
proof -
  have "length rx - Suc k + 1 < length rx" using assms(3,4) by simp
  then have "inside s (rx ! (length rx - Suc k)) (ry ! (length rx - Suc k))"
    using assms(1) by (simp add: all_but_last_inside_def)
  then show ?thesis using assms(2,4) by (simp add: rev_nth)
qed

lemma makeStreamline_points:
  assumes "makeStreamline s m x0 y0 = Inr ((xs, ys), m')"
  shows "length xs = length ys"
    and "\<And>k. 0 < k \<Longrightarrow> k + 1 < length xs \<Longrightarrow> inside s (xs ! k) (ys ! k)"
    and "inside s x0 y0 \<Longrightarrow> 3 \<le> length xs"
    and "\<not> inside s x0 y0 \<Longrightarrow> xs = [x0] \<and> ys = [y0]"
proof -
  from assms obtain sx sy m1 rx ry where
      f: "makeHalfStreamline s m x0 y0 1 = Inr (sx, sy, m1)"
    and b: "makeHalfStreamline s m1 x0 y0 (- 1) = Inr (rx, ry, m')"
    and xs: "xs = rev rx @ [x0] @ sx" and ys: "ys = rev ry @ [y0] @ sy"
    by (auto simp: makeStreamline_def split: sum.splits)
  note pf = makeHalfStreamline_points [OF f] and pb = makeHalfStreamline_points [OF b]
  show "length xs = length ys" using xs ys pf(1) pb(1) by simp
  show "inside s x0 y0 \<Longrightarrow> 3 \<le> length xs"
    using pf(3) pb(3) xs by (cases sx; cases rx) auto
  show "\<not> inside s x0 y0 \<Longrightarrow> xs = [x0] \<and> ys = [y0]"
    using pf(1,4) pb(1,4) xs ys by auto
  fix k assume k: "0 < k" "k + 1 < length xs"
  show "inside s (xs ! k) (ys ! k)"
  proof (cases "inside s x0 y0")
    case False
    then show ?thesis using pf(4) pb(4) xs k by simp
  next
    case True
    consider "k < length rx" | "k = length rx" | "length rx < k" by linarith
    then show ?thesis
    proof cases
      case 1
      then show ?thesis
        using rev_nth_inside [OF pb(2,1) k(1)] pb(1) xs ys by (simp add: nth_append)
    next
      case 2
      then show ?thesis using True pb(1) xs ys by (simp add: nth_append)
    next
      case 3
      then obtain d where d: "k = length rx + 1 + d" by (metis add.assoc less_iff_Suc_add plus_1_eq_Suc add.commute)
      then have "d + 1 < length sx" using k(2) xs by simp
      then have "inside s (sx ! d) (sy ! d)" using pf(2) by (simp add: all_but_last_inside_def)
      then show ?thesis using d pb(1) xs ys by (simp add: nth_append)
    qed
  qed
qed


subsection \<open>The mask on entry to the seeding loop\<close>

lemma border_covered_iff:
  "border_covered m \<longleftrightarrow>
     (\<forall>r < length m. \<forall>c < length (m ! r).
        (r = 0 \<or> r + 1 = length m \<or> c = 0 \<or> c + 1 = length (m ! r)) \<longrightarrow> m ! r ! c)"
  unfolding border_covered_def list_all_iff set_upt Ball_def atLeastLessThan_iff
  by blast

lemma border_covered_mono: "border_covered a \<Longrightarrow> mask_le a b \<Longrightarrow> border_covered b"
  unfolding border_covered_iff mask_le_iff by (metis (no_types, lifting))

lemma for_each_inv:
  assumes "\<And>a st. a \<in> set as \<Longrightarrow> P st \<Longrightarrow> \<exists>st'. f a st = Inr st' \<and> P st'" and "P st"
  shows "\<exists>st'. for_each f as st = Inr st' \<and> P st'"
  using assms
proof (induction as arbitrary: st)
  case Nil
  then show ?case by simp
next
  case (Cons a as)
  from Cons.prems(1) [of a st] Cons.prems(2) obtain st1 where s1: "f a st = Inr st1" "P st1"
    by auto
  from Cons.IH [of st1] Cons.prems(1) s1(2) obtain st' where "for_each f as st1 = Inr st'" "P st'"
    by auto
  then show ?case using s1(1) by simp
qed

lemma for_each_mask_le:
  assumes "\<And>a st st'. f a st = Inr st' \<Longrightarrow> mask_le st st'"
  shows "for_each f as st = Inr st' \<Longrightarrow> mask_le st st'"
proof (induction as arbitrary: st)
  case Nil
  then show ?case by (simp add: mask_le_refl)
next
  case (Cons a as)
  then show ?case
    by (auto split: sum.splits dest: assms intro: mask_le_trans)
qed

lemma mark_zero_cell_mask_le: "mark_zero_cell s i j m = Inr m' \<Longrightarrow> mask_le m m'"
  by (auto simp: mark_zero_cell_def mask_le_refl mask_le_set_block split: option.splits if_splits)

lemma mark_zero_mask_le: "mark_zero s m = Inr m' \<Longrightarrow> mask_le m m'"
  unfolding mark_zero_def
  by (erule for_each_mask_le [rotated]) (erule for_each_mask_le [rotated], erule mark_zero_cell_mask_le)

lemma mark_zero_cell_total:
  assumes "well_formed s" "i < length (self_x s)" "j < length (self_y s)"
  shows "\<exists>m'. mark_zero_cell s i j m = Inr m'"
proof -
  have "get2 (self_u s) (int j) (int i) = Some (self_u s ! j ! i)"
       "get2 (self_v s) (int j) (int i) = Some (self_v s ! j ! i)"
    using assms
      get2_in_range [of "int j" "length (self_y s)" "int i" "length (self_x s)" "self_u s"]
      get2_in_range [of "int j" "length (self_y s)" "int i" "length (self_x s)" "self_v s"]
    by (simp_all add: well_formed_def)
  then show ?thesis by (simp add: mark_zero_cell_def)
qed

lemma mark_zero_total:
  assumes wf: "well_formed s"
  shows "\<exists>m'. mark_zero s m = Inr m'"
proof -
  have inner: "\<exists>m'. for_each (\<lambda>j. mark_zero_cell s i j) [0 ..< length (self_y s)] m = Inr m' \<and> True"
    if "i < length (self_x s)" for i m
    by (rule for_each_inv) (use that mark_zero_cell_total [OF wf] in auto)
  have "\<exists>m'. for_each (\<lambda>i. for_each (\<lambda>j. mark_zero_cell s i j) [0 ..< length (self_y s)])
              [0 ..< length (self_x s)] m = Inr m' \<and> True"
    by (rule for_each_inv) (use inner in auto)
  then show ?thesis by (simp add: mark_zero_def)
qed

lemma border_mask_ok:
  assumes "has_shape U nr nc" "0 < nr" "0 < nc"
  shows "\<exists>b. border_mask U = Inr b \<and> has_shape b nr nc \<and> border_covered b"
proof -
  let ?z = "map (\<lambda>r. map (\<lambda>_. False) r) U"
  let ?b = "set_block (set_block (set_block (set_block ?z
                     [0] [0 ..< nc]) [nr - 1] [0 ..< nc]) [0 ..< nr] [0]) [0 ..< nr] [nc - 1]"
  have z: "has_shape ?z nr nc" using assms(1) by (simp add: has_shape_def list_all_length)
  have b: "border_mask U = Inr ?b"
    using assms has_shape_ncols [OF assms(1,2)] by (simp add: border_mask_def Let_def has_shape_def)
  have sh: "has_shape ?b nr nc" by (intro has_shape_set_block z)
  have "border_covered ?b"
    unfolding border_covered_iff
  proof (intro allI impI)
    fix r c assume r: "r < length ?b" and c: "c < length (?b ! r)"
      and bd: "r = 0 \<or> r + 1 = length ?b \<or> c = 0 \<or> c + 1 = length (?b ! r)"
    have rl: "r < nr" using r z by (simp add: has_shape_def)
    have cl: "c < nc" using c rl z by (simp add: has_shape_def list_all_length)
    have lz: "length ?z = nr" "length (?z ! r) = nc" using z rl by (simp_all add: has_shape_def list_all_length)
    have bd': "r = 0 \<or> r = nr - 1 \<or> c = 0 \<or> c = nc - 1" using bd rl cl lz by auto
    show "?b ! r ! c" using rl cl lz bd' by (simp add: set_block_nth)
  qed
  then show ?thesis using b sh by blast
qed

lemma init_used_ok:
  assumes wf: "well_formed s"
  shows "\<exists>m0. init_used s = Inr m0 \<and> has_shape m0 (length (self_y s)) (length (self_x s))
               \<and> border_covered m0"
proof -
  have ne: "self_x s \<noteq> []" "self_y s \<noteq> []"
    and u: "has_shape (self_u s) (length (self_y s)) (length (self_x s))"
    using wf by (simp_all add: well_formed_def)
  obtain b where b: "border_mask (self_u s) = Inr b"
      "has_shape b (length (self_y s)) (length (self_x s))" "border_covered b"
    using border_mask_ok [OF u] ne by auto
  obtain m0 where m0: "mark_zero s b = Inr m0" using mark_zero_total [OF wf] by blast
  have le: "mask_le b m0" by (rule mark_zero_mask_le [OF m0])
  show ?thesis
    using ne b m0 mask_le_shape [OF le b(2)] border_covered_mono [OF b(3) le]
    by (simp add: init_used_def)
qed

subsection \<open>Progress of the seeding loop\<close>

lemma increasing_inside:
  assumes "increasing xs" "0 < c" "c + 1 < length xs"
  shows "hd xs < xs ! c" "xs ! c < last xs"
proof -
  have ne: "xs \<noteq> []" using assms(3) by auto
  have "xs ! 0 < xs ! c"
    using assms by (simp add: increasing_def sorted_wrt_nth_less)
  then show "hd xs < xs ! c" using ne by (simp add: hd_conv_nth)
  have "xs ! c < xs ! (length xs - 1)"
    using assms by (simp add: increasing_def sorted_wrt_nth_less)
  then show "xs ! c < last xs" using ne by (simp add: last_conv_nth)
qed



lemma seed_interior:
  assumes sh: "has_shape m (length (self_y s)) (length (self_x s))"
    and bc: "border_covered m" and nz: "unused_cells m = (r, c) # rest"
  shows "0 < r" "r + 1 < length (self_y s)" "0 < c" "c + 1 < length (self_x s)"
    and "seed_point s m = Inr (self_x s ! c, self_y s ! r)"
proof -
  note f = unused_cells_first [OF nz]
  have lr: "length m = length (self_y s)" using sh by (simp add: has_shape_def)
  have lc: "length (m ! r) = length (self_x s)"
    using sh f(1) by (simp add: has_shape_def list_all_length)
  have nb: "\<not> (r = 0 \<or> r + 1 = length m \<or> c = 0 \<or> c + 1 = length (m ! r))"
    using bc f(1,2,3) unfolding border_covered_iff by blast
  show "0 < r" "r + 1 < length (self_y s)" "0 < c" "c + 1 < length (self_x s)"
    using nb f(1,2) lr lc by auto
  show "seed_point s m = Inr (self_x s ! c, self_y s ! r)"
    using nz f(1,2) lr lc by (simp add: seed_point_def)
qed

lemma seed_inside:
  assumes "increasing (self_x s)" "increasing (self_y s)"
    and "0 < r" "r + 1 < length (self_y s)" "0 < c" "c + 1 < length (self_x s)"
  shows "inside s (self_x s ! c) (self_y s ! r)"
  using increasing_inside [OF assms(1,5,6)] increasing_inside [OF assms(2,3,4)]
  by (simp add: inside_def)

lemma seed_step_grows:
  assumes "seed_step s st = Inr st'"
  shows "mask_le (used st) (used st')" "\<exists>line. streamlines st' = streamlines st @ [line]"
proof -
  from assms obtain x0 y0 line m' where
      "makeStreamline s (used st) x0 y0 = Inr (line, m')"
      "st' = \<lparr>used = m', streamlines = streamlines st @ [line]\<rparr>"
    by (auto simp: seed_step_def split: sum.splits)
  then show "mask_le (used st) (used st')" "\<exists>line. streamlines st' = streamlines st @ [line]"
    using makeStreamline_mask_le by auto
qed

lemma seed_step_three:
  assumes wf: "well_formed s" and inc: "increasing (self_x s)" "increasing (self_y s)"
    and sh: "has_shape (used st) (length (self_y s)) (length (self_x s))"
    and bc: "border_covered (used st)" and nf: "\<not> all_used (used st)"
    and step: "seed_step s st = Inr st'"
  shows "\<exists>xs ys. streamlines st' = streamlines st @ [(xs, ys)] \<and> 3 \<le> length xs \<and> length ys = length xs"
proof -
  obtain r c rest where nz: "unused_cells (used st) = (r, c) # rest"
    using nf unused_cells_Nil [of "used st"] by (cases "unused_cells (used st)") auto
  note si = seed_interior [OF sh bc nz]
  have ins: "inside s (self_x s ! c) (self_y s ! r)"
    by (rule seed_inside [OF inc si(1,2,3,4)])
  from step si(5) obtain xs ys m' where
      ms: "makeStreamline s (used st) (self_x s ! c) (self_y s ! r) = Inr ((xs, ys), m')"
    and st': "streamlines st' = streamlines st @ [(xs, ys)]"
    by (auto simp: seed_step_def split: sum.splits)
  from makeStreamline_points(1,3) [OF ms] ins st' show ?thesis by auto
qed



subsection \<open>Runs of the seeding loop\<close>

lemma seeding_loop_run:
  assumes "seeding_loop s st = Some res"
  shows "seeding_run s st res"
proof (rule seeding_loop.raw_induct [where P = seeding_run, OF _ assms])
  fix loop :: "streamlines_obj \<Rightarrow> gen_state \<Rightarrow> (error + gen_state) option"
  fix s st res
  assume IH: "\<And>s st y. loop s st = Some y \<Longrightarrow> seeding_run s st y"
    and body: "(if all_used (used st) then Some (Inr st)
                else case seed_step s st of Inl e \<Rightarrow> Some (Inl e) | Inr st' \<Rightarrow> loop s st')
               = Some res"
  show "seeding_run s st res"
  proof (cases "all_used (used st)")
    case True
    then show ?thesis using body by (auto intro: run_full)
  next
    case False
    show ?thesis
    proof (cases "seed_step s st")
      case (Inl e)
      then have "res = Inl e" using False body by simp
      then show ?thesis using run_raise [OF False Inl] by simp
    next
      case (Inr st1)
      then have "loop s st1 = Some res" using False body by simp
      then have "seeding_run s st1 res" by (rule IH)
      then show ?thesis using False Inr by (auto intro: run_step)
    qed
  qed
qed



lemma seeding_run_invariant:
  assumes "seeding_run s st res"
    and "\<And>a b. I a \<Longrightarrow> \<not> all_used (used a) \<Longrightarrow> seed_step s a = Inr b \<Longrightarrow> I b"
  shows "I st \<Longrightarrow> res = Inr st' \<Longrightarrow> I st' \<and> all_used (used st')"
  using assms(1)
proof (induction rule: seeding_run.induct)
  case (run_full st)
  then show ?case by simp
next
  case (run_raise st e)
  then show ?case by simp
next
  case (run_step st st1 res)
  then show ?case using assms(2) by blast
qed

lemma seeding_loop_invariant:
  assumes "seeding_loop s st = Some (Inr st')" and "I st"
    and "\<And>a b. I a \<Longrightarrow> \<not> all_used (used a) \<Longrightarrow> seed_step s a = Inr b \<Longrightarrow> I b"
  shows "I st' \<and> all_used (used st')"
  using seeding_run_invariant [OF seeding_loop_run [OF assms(1)], of I st'] assms(2,3) by blast



subsection \<open>The interpolation formula\<close>




subsection \<open>Zero spacing, single points and empty boxes\<close>









lemma makeStreamline_never_inside:
  assumes "self_x s \<noteq> []" "self_y s \<noteq> []" "\<not> inside s x0 y0"
  shows "makeStreamline s m x0 y0 = Inr (([x0], [y0]), m)"
  using assms by (simp add: makeStreamline_def makeHalfStreamline_def half_loop_outside)

subsection \<open>Runs on the example grids\<close>

lemma grid3_sel [simp]:
  "self_x (grid3 xs r sp ml) = xs" "self_y (grid3 xs r sp ml) = [0, 1, 2]"
  "self_u (grid3 xs r sp ml) = [[1, 1, 1], [1, 1, 1], [1, 1, 1]]"
  "self_v (grid3 xs r sp ml) = [[0, 0, 0], [0, 0, 0], [0, 0, 0]]"
  "self_res (grid3 xs r sp ml) = r" "self_spacing (grid3 xs r sp ml) = sp"
  "self_maxLen (grid3 xs r sp ml) = ml" "self_detectLoops (grid3 xs r sp ml) = False"
  by (simp_all add: grid3_def)

lemma grid3_steps:
  "dx (grid3 [0, 1, 2] r sp ml) = 1" "dy (grid3 xs r sp ml) = 1"
  "dr (grid3 [0, 1, 2] r sp ml) = r"
  by (simp_all add: dx_def dy_def dr_def)

lemma grid3_init: "init_used (grid3 [a, b, c] r sp ml) = Inr ring3"
  by (simp add: init_used_def border_mask_def ncols_def set_block_def mark_zero_def
        mark_zero_cell_def get2_def np_index_def upt_rec ring3_def)

lemma grid3_well_formed: "well_formed (grid3 [a, b, c] r sp ml)"
  by (simp add: well_formed_def has_shape_def)

lemma ring3_facts:
  "\<not> all_used ring3" "has_shape ring3 3 3" "unused_cells ring3 = [(1, 1)]"
  "all_used full3"
  by code_simp+

lemma grid3_seed: "seed_point (grid3 [a, b, c] r sp ml) ring3 = Inr (b, 1)"
  by (simp add: seed_point_def ring3_facts)

lemma grid3_inside: "inside (grid3 [0, 1, 2] r sp ml) px py \<longleftrightarrow> 0 < px \<and> px < 2 \<and> 0 < py \<and> py < 2"
  by (simp add: inside_def)

lemma arctan2_east: "arctan2 0 1 = 0"
  by (simp add: arctan2_def)

lemma grid3_interp_seed:
  "interp (grid3 [0, 1, 2] r sp ml) m 1 1 =
     Inr ((1, 0), set_block m (slice_range (length m) 1 (1 + sp)) (slice_range (ncols m) 1 (1 + sp)))"
  by (simp add: interp_def grid3_steps Let_def trunc_def bilinear_def get2_def np_index_def)

lemma grid3_interp_east:
  "interp (grid3 [0, 1, 2] r sp ml) m (9 / 8) 1 =
     Inr ((1, 0), set_block m (slice_range (length m) 1 (1 + sp)) (slice_range (ncols m) 1 (1 + sp)))"
  by (simp add: interp_def grid3_steps Let_def trunc_def frac_def bilinear_def get2_def np_index_def)

lemma grid3_interp_west:
  "interp (grid3 [0, 1, 2] r sp ml) m (7 / 8) 1 =
     Inr ((1, 0), set_block m (slice_range (length m) 1 (1 + sp)) (slice_range (ncols m) 0 (0 + sp)))"
  by (simp add: interp_def grid3_steps Let_def trunc_def frac_def bilinear_def get2_def np_index_def)

lemma block3:
  "set_block ring3 (slice_range (length ring3) 1 3) (slice_range (ncols ring3) 1 3) = full3"
  "set_block full3 (slice_range (length full3) 1 3) (slice_range (ncols full3) 1 3) = full3"
  "set_block full3 (slice_range (length full3) 1 3) (slice_range (ncols full3) 0 2) = full3"
  by code_simp+

lemma grid3_advance:
  "advance (grid3 [0, 1, 2] r 2 ml) sign 1 1 ring3 = Inr (1 + sign * r, 1, full3)"
  "advance (grid3 [0, 1, 2] r 2 ml) sign 1 1 full3 = Inr (1 + sign * r, 1, full3)"
  "advance (grid3 [0, 1, 2] r 2 ml) sign (9 / 8) 1 full3 = Inr (9 / 8 + sign * r, 1, full3)"
  "advance (grid3 [0, 1, 2] r 2 ml) sign (7 / 8) 1 full3 = Inr (7 / 8 + sign * r, 1, full3)"
  by (simp_all add: advance_def grid3_interp_seed grid3_interp_east grid3_interp_west block3
        arctan2_east grid3_steps)

lemma unit_forward:
  "makeHalfStreamline (grid3 [0, 1, 2] 1 2 2500) ring3 1 1 1 = Inr ([2], [1], full3)"
  unfolding makeHalfStreamline_def
  apply (subst half_loop.simps)
  apply (simp add: grid3_inside grid3_advance stops_def)
  apply (subst half_loop.simps)
  apply (simp add: grid3_inside)
  done

lemma unit_backward:
  "makeHalfStreamline (grid3 [0, 1, 2] 1 2 2500) full3 1 1 (- 1) = Inr ([0], [1], full3)"
  unfolding makeHalfStreamline_def
  apply (subst half_loop.simps)
  apply (simp add: grid3_inside grid3_advance stops_def)
  apply (subst half_loop.simps)
  apply (simp add: grid3_inside)
  done

lemma unit_step:
  "seed_step (grid3 [0, 1, 2] 1 2 2500) \<lparr>used = ring3, streamlines = []\<rparr> =
     Inr \<lparr>used = full3, streamlines = [([0, 1, 2], [1, 1, 1])]\<rparr>"
  by (simp add: seed_step_def grid3_seed makeStreamline_def unit_forward unit_backward)

lemma unit_run:
  "Streamlines_init (grid3 [0, 1, 2] 1 2 2500) =
     Some (Inr \<lparr>used = full3, streamlines = [([0, 1, 2], [1, 1, 1])]\<rparr>)"
  unfolding Streamlines_init_def grid3_init
  apply simp
  apply (subst seeding_loop.simps)
  apply (simp add: ring3_facts unit_step)
  apply (subst seeding_loop.simps)
  apply (simp add: ring3_facts)
  done

lemma short_forward:
  "makeHalfStreamline (grid3 [0, 1, 2] (1 / 8) 2 2) ring3 1 1 1 = Inr ([9 / 8, 5 / 4], [1, 1], full3)"
  unfolding makeHalfStreamline_def
  apply (subst half_loop.simps)
  apply (simp add: grid3_inside grid3_advance stops_def)
  apply (subst half_loop.simps)
  apply (simp add: grid3_inside grid3_advance stops_def)
  done

lemma short_backward:
  "makeHalfStreamline (grid3 [0, 1, 2] (1 / 8) 2 2) full3 1 1 (- 1) = Inr ([7 / 8, 3 / 4], [1, 1], full3)"
  unfolding makeHalfStreamline_def
  apply (subst half_loop.simps)
  apply (simp add: grid3_inside grid3_advance stops_def)
  apply (subst half_loop.simps)
  apply (simp add: grid3_inside grid3_advance stops_def)
  done

lemma short_run:
  "Streamlines_init (grid3 [0, 1, 2] (1 / 8) 2 2) =
     Some (Inr \<lparr>used = full3,
                streamlines = [([3 / 4, 7 / 8, 1, 9 / 8, 5 / 4], [1, 1, 1, 1, 1])]\<rparr>)"
  unfolding Streamlines_init_def grid3_init
  apply simp
  apply (subst seeding_loop.simps)
  apply (simp add: ring3_facts seed_step_def grid3_seed makeStreamline_def short_forward short_backward)
  apply (subst seeding_loop.simps)
  apply (simp add: ring3_facts)
  done

subsection \<open>Runs of the constructor\<close>

lemma covers_initial_shape:
  assumes "well_formed s" "covers_initial s st"
  shows "has_shape (used st) (length (self_y s)) (length (self_x s))" "border_covered (used st)"
proof -
  obtain m0 where m0: "init_used s = Inr m0"
      "has_shape m0 (length (self_y s)) (length (self_x s))" "border_covered m0"
    using init_used_ok [OF assms(1)] by blast
  have le: "mask_le m0 (used st)" using assms(2) m0(1) by (simp add: covers_initial_def)
  show "has_shape (used st) (length (self_y s)) (length (self_x s))"
    by (rule mask_le_shape [OF le m0(2)])
  show "border_covered (used st)" by (rule border_covered_mono [OF m0(3) le])
qed

lemma covers_initial_step:
  "covers_initial s st \<Longrightarrow> seed_step s st = Inr st' \<Longrightarrow> covers_initial s st'"
  by (auto simp: covers_initial_def split: sum.splits dest: seed_step_grows(1) intro: mask_le_trans)

lemma covers_initial_start: "init_used s = Inr m0 \<Longrightarrow> covers_initial s \<lparr>used = m0, streamlines = []\<rparr>"
  by (simp add: covers_initial_def mask_le_refl)


lemma Streamlines_init_invariant:
  assumes run: "Streamlines_init s = Some (Inr st)"
    and start: "\<And>m0. init_used s = Inr m0 \<Longrightarrow> I \<lparr>used = m0, streamlines = []\<rparr>"
    and step: "\<And>a b. I a \<Longrightarrow> \<not> all_used (used a) \<Longrightarrow> seed_step s a = Inr b \<Longrightarrow> I b"
  shows "I st"
proof (cases "init_used s")
  case (Inl e)
  then show ?thesis using run by (simp add: Streamlines_init_def)
next
  case (Inr m0)
  then have "seeding_loop s \<lparr>used = m0, streamlines = []\<rparr> = Some (Inr st)"
    using run by (simp add: Streamlines_init_def)
  from seeding_loop_invariant [OF this, of I] start [OF Inr] step show ?thesis by blast
qed


subsection \<open>More runs on the example grids\<close>

lemma falling_never_inside: "\<not> inside (grid3 [2, 1, 0] r sp ml) px py"
  by (simp add: inside_def)

lemma falling_step:
  "seed_step (grid3 [2, 1, 0] r sp ml) \<lparr>used = ring3, streamlines = sl\<rparr> =
     Inr \<lparr>used = ring3, streamlines = sl @ [([1], [1])]\<rparr>"
  by (simp add: seed_step_def grid3_seed makeStreamline_never_inside falling_never_inside)


lemma count_ring3: "count_true ring3 = 8" "count_true full3 = 9" "mask_le ring3 full3" "mask_le ring3 ring3"
  by code_simp+





subsection \<open>The length of a streamline\<close>

text \<open>
  A half streamline started at step count \<open>i\<close> gains at most \<open>maxLen div 2 + 1 - i\<close>
  points, and at most one when that is less than one; a streamline has at most twice
  that many points and the seed.
\<close>

lemma half_loop_bound:
  "half_loop s sign px py i sx sy m = Inr (sx', sy', m') \<Longrightarrow>
   int (length sx') \<le> int (length sx) + max 1 (self_maxLen s div 2 + 1 - i)"
proof (induction s sign px py i sx sy m rule: half_loop.induct)
  case (1 s sign px py i sx sy m)
  show ?case
  proof (cases "inside s px py")
    case False
    then show ?thesis using "1.prems" by (simp add: half_loop_outside)
  next
    case True
    from "1.prems" True obtain px' py' m1 where adv: "advance s sign px py m = Inr (px', py', m1)"
      by (subst (asm) half_loop.simps) (auto split: sum.splits)
    show ?thesis
    proof (cases "stops s (i + 1) (sx @ [px']) (sy @ [py'])")
      case True
      then have "sx' = sx @ [px']"
        using \<open>inside s px py\<close> adv "1.prems" by (subst (asm) half_loop.simps) simp
      then show ?thesis by simp
    next
      case False
      then have rec: "half_loop s sign px' py' (i + 1) (sx @ [px']) (sy @ [py']) m1 = Inr (sx', sy', m')"
        using "1.prems" True adv by (subst (asm) half_loop.simps) simp
      have "\<not> real_of_int (i + 1) > real_of_int (self_maxLen s) / 2"
        using False by (simp add: stops_def)
      then have "real_of_int (2 * (i + 1)) \<le> real_of_int (self_maxLen s)" by simp
      then have "2 * (i + 1) \<le> self_maxLen s" by (simp only: of_int_le_iff)
      then have le: "i + 1 \<le> self_maxLen s div 2" by presburger
      from "1.IH" [OF True adv refl refl False rec] le show ?thesis by simp
    qed
  qed
qed

lemma makeStreamline_bound:
  assumes "makeStreamline s m x0 y0 = Inr ((xs, ys), m')"
  shows "int (length xs) \<le> 2 * max 1 (self_maxLen s div 2 + 1) + 1"
proof -
  from assms obtain sx sy m1 rx ry where
      f: "makeHalfStreamline s m x0 y0 1 = Inr (sx, sy, m1)"
    and b: "makeHalfStreamline s m1 x0 y0 (- 1) = Inr (rx, ry, m')"
    and xs: "xs = rev rx @ [x0] @ sx"
    by (auto simp: makeStreamline_def split: sum.splits)
  have "int (length sx) \<le> max 1 (self_maxLen s div 2 + 1)"
    using f half_loop_bound [of s 1 x0 y0 0 "[]" "[]" m sx sy m1]
    by (simp add: makeHalfStreamline_def split: if_splits)
  moreover have "int (length rx) \<le> max 1 (self_maxLen s div 2 + 1)"
    using b half_loop_bound [of s "- 1" x0 y0 0 "[]" "[]" m1 rx ry m']
    by (simp add: makeHalfStreamline_def split: if_splits)
  ultimately show ?thesis using xs by simp
qed

section \<open>The claims\<close>




text \<open>
  C2 (stated for the points between the two ends).  In every streamline the constructor
  returns, the two coordinate lists have the same length and every point other than
  the first and the last one passes the guard of line 153: it lies strictly between
  \<open>x[0]\<close> and \<open>x[-1]\<close> and strictly between \<open>y[0]\<close> and \<open>y[-1]\<close>.  The two end
  points are appended on lines 159 and 160 before the guard is evaluated again.
\<close>

theorem interior_points_inside:
  assumes "Streamlines_init s = Some (Inr st)" and "(xs, ys) \<in> set (streamlines st)"
  shows "length xs = length ys \<and> (\<forall>k. 0 < k \<and> k + 1 < length xs \<longrightarrow> inside s (xs ! k) (ys ! k))"
proof -
  let ?I = "\<lambda>a. \<forall>(xs, ys) \<in> set (streamlines a).
      length xs = length ys \<and> (\<forall>k. 0 < k \<and> k + 1 < length xs \<longrightarrow> inside s (xs ! k) (ys ! k))"
  have "?I st"
  proof (rule Streamlines_init_invariant [OF assms(1), of ?I])
    fix m0 show "?I \<lparr>used = m0, streamlines = []\<rparr>" by simp
  next
    fix a b assume I: "?I a" and step: "seed_step s a = Inr b"
    from step obtain x0 y0 xs ys m' where
        ms: "makeStreamline s (used a) x0 y0 = Inr ((xs, ys), m')"
      and b: "streamlines b = streamlines a @ [(xs, ys)]"
      by (auto simp: seed_step_def split: sum.splits)
    from makeStreamline_points(1,2) [OF ms] I b show "?I b" by auto
  qed
  then show ?thesis using assms(2) by blast
qed

theorem interior_points_inside_witness:
  "Streamlines_init (grid3 [0, 1, 2] 1 2 2500)
     = Some (Inr \<lparr>used = full3, streamlines = [([0, 1, 2], [1, 1, 1])]\<rparr>)
   \<and> ([0, 1, 2], [1, 1, 1]) \<in> set (streamlines \<lparr>used = full3, streamlines = [([0, 1, 2], [1, 1, 1])]\<rparr>)
   \<and> length [0, 1, 2 :: real] = length [1, 1, 1 :: real]
   \<and> inside (grid3 [0, 1, 2] 1 2 2500) ([0, 1, 2] ! 1) ([1, 1, 1] ! 1)"
proof -
  let ?g = "grid3 [0, 1, 2] 1 2 2500"
  let ?st = "\<lparr>used = full3, streamlines = [([0, 1, 2], [1, 1, 1])]\<rparr>"
  have run: "Streamlines_init ?g = Some (Inr ?st)" by (rule unit_run)
  have mem: "([0, 1, 2], [1, 1, 1]) \<in> set (streamlines ?st)" by simp
  from interior_points_inside [OF run mem]
  have "\<forall>k. 0 < k \<and> k + 1 < length [0, 1, 2 :: real]
            \<longrightarrow> inside ?g ([0, 1, 2] ! k) ([1, 1, 1] ! k)" by blast
  then have "0 < (1::nat) \<and> (1::nat) + 1 < length [0, 1, 2 :: real]
            \<longrightarrow> inside ?g ([0, 1, 2] ! 1) ([1, 1, 1] ! 1)" by (rule spec)
  then have "inside ?g ([0, 1, 2] ! 1) ([1, 1, 1] ! 1)" by simp
  then show ?thesis using run mem by simp
qed

text \<open>
  C2 as stated fails: on the three by three grid with the axes \<open>0, 1, 2\<close>, the
  velocity \<open>(1, 0)\<close> and a resolution of one grid step, the streamline through the
  seed \<open>(1, 1)\<close> starts at \<open>(0, 1)\<close> and ends at \<open>(2, 1)\<close>, both on the bounding box.
\<close>

theorem end_points_on_boundary:
  "Streamlines_init (grid3 [0, 1, 2] 1 2 2500)
     = Some (Inr \<lparr>used = full3, streamlines = [([0, 1, 2], [1, 1, 1])]\<rparr>)
   \<and> [0, 1, 2] ! 0 = hd (self_x (grid3 [0, 1, 2] 1 2 2500))
   \<and> [0, 1, 2] ! 2 = last (self_x (grid3 [0, 1, 2] 1 2 2500))
   \<and> \<not> inside (grid3 [0, 1, 2] 1 2 2500) ([0, 1, 2] ! 0) ([1, 1, 1] ! 0)
   \<and> \<not> inside (grid3 [0, 1, 2] 1 2 2500) ([0, 1, 2] ! 2) ([1, 1, 1] ! 2)"
  by (simp add: unit_run grid3_inside)

text \<open>
  C3 fails on the code.  With \<open>maxLen = 2\<close> on the same grid and a resolution of an
  eighth of a grid step, each half runs until its step count exceeds \<open>maxLen / 2 = 1\<close>,
  that is for two steps, and the streamline has five points, more than \<open>maxLen\<close> and
  as many as \<open>makeStreamline_bound\<close> allows.
\<close>

theorem streamline_longer_than_maxLen:
  "Streamlines_init (grid3 [0, 1, 2] (1 / 8) 2 2)
     = Some (Inr \<lparr>used = full3,
                  streamlines = [([3 / 4, 7 / 8, 1, 9 / 8, 5 / 4], [1, 1, 1, 1, 1])]\<rparr>)
   \<and> self_maxLen (grid3 [0, 1, 2] (1 / 8) 2 2) = 2
   \<and> self_maxLen (grid3 [0, 1, 2] (1 / 8) 2 2) < int (length [3 / 4, 7 / 8, 1, 9 / 8, 5 / 4 :: real])"
  by (simp add: short_run)








text \<open>
  C7.  When the mask is not full, the first entry of the list of unused cells is a
  false cell \<open>(r, c)\<close> that precedes every other false cell in row-major order (a
  smaller row, or the same row and a smaller column); when both indices are within the
  axes, the seed is \<open>(x[c], y[r])\<close> and the round of the loop grows the streamline from
  that point.
\<close>

theorem seed_is_first_unused:
  assumes "\<not> all_used (used st)"
  shows "\<exists>r c. r < length (used st) \<and> c < length (used st ! r) \<and> \<not> used st ! r ! c
     \<and> (\<forall>r' c'. r' < length (used st) \<and> c' < length (used st ! r') \<and> \<not> used st ! r' ! c'
            \<longrightarrow> r < r' \<or> (r = r' \<and> c \<le> c'))
     \<and> (c < length (self_x s) \<and> r < length (self_y s) \<longrightarrow>
          seed_point s (used st) = Inr (self_x s ! c, self_y s ! r)
          \<and> seed_step s st =
              (case makeStreamline s (used st) (self_x s ! c) (self_y s ! r) of
                 Inl e \<Rightarrow> Inl e
               | Inr (line, m') \<Rightarrow> Inr \<lparr>used = m', streamlines = streamlines st @ [line]\<rparr>))"
proof -
  obtain r c rest where nz: "unused_cells (used st) = (r, c) # rest"
    using assms unused_cells_Nil [of "used st"] by (cases "unused_cells (used st)") auto
  note f = unused_cells_first [OF nz]
  have sp: "seed_point s (used st) = Inr (self_x s ! c, self_y s ! r)"
    if "c < length (self_x s) \<and> r < length (self_y s)"
    using that nz by (simp add: seed_point_def)
  have "seed_step s st =
      (case makeStreamline s (used st) (self_x s ! c) (self_y s ! r) of
         Inl e \<Rightarrow> Inl e
       | Inr (line, m') \<Rightarrow> Inr \<lparr>used = m', streamlines = streamlines st @ [line]\<rparr>)"
    if "c < length (self_x s) \<and> r < length (self_y s)"
    using sp [OF that] by (simp add: seed_step_def)
  with sp f show ?thesis by blast
qed

theorem seed_is_first_unused_witness:
  "\<not> all_used [[True, True, True], [True, True, False], [False, False, True]]
   \<and> unused_cells [[True, True, True], [True, True, False], [False, False, True]]
       = [(1, 2), (2, 0), (2, 1)]
   \<and> (\<exists>r c. \<not> [[True, True, True], [True, True, False], [False, False, True]] ! r ! c
        \<and> (r < 1 \<or> (r = 1 \<and> c \<le> 2))
        \<and> seed_point (grid3 [0, 1, 2] 1 2 2500)
             [[True, True, True], [True, True, False], [False, False, True]]
           = Inr (self_x (grid3 [0, 1, 2] 1 2 2500) ! c, self_y (grid3 [0, 1, 2] 1 2 2500) ! r))"
proof -
  let ?m = "[[True, True, True], [True, True, False], [False, False, True]]"
  let ?g = "grid3 [0, 1, 2] 1 2 2500"
  have n: "\<not> all_used ?m" by code_simp
  have u: "unused_cells ?m = [(1, 2), (2, 0), (2, 1)]" by code_simp
  have c12: "(1::nat) < length ?m \<and> (2::nat) < length (?m ! 1) \<and> \<not> ?m ! 1 ! 2" by simp
  have n': "\<not> all_used (used \<lparr>used = ?m, streamlines = []\<rparr>)" using n by simp
  from seed_is_first_unused [OF n', of ?g]
  obtain r c where rc: "r < length ?m" "c < length (?m ! r)" "\<not> ?m ! r ! c"
      "\<forall>r' c'. r' < length ?m \<and> c' < length (?m ! r') \<and> \<not> ?m ! r' ! c'
            \<longrightarrow> r < r' \<or> (r = r' \<and> c \<le> c')"
      "c < length (self_x ?g) \<and> r < length (self_y ?g) \<longrightarrow>
          seed_point ?g ?m = Inr (self_x ?g ! c, self_y ?g ! r)"
    by auto
  from rc(4) c12 have first: "r < 1 \<or> (r = 1 \<and> c \<le> 2)" by blast
  have "r < 3" using rc(1) by simp
  moreover have "c < 3" using rc(1,2) by (auto simp: nth_Cons' split: if_splits)
  ultimately have "seed_point ?g ?m = Inr (self_x ?g ! c, self_y ?g ! r)" using rc(5) by simp
  with rc(3) first have "\<exists>r c. \<not> ?m ! r ! c \<and> (r < 1 \<or> (r = 1 \<and> c \<le> 2))
      \<and> seed_point ?g ?m = Inr (self_x ?g ! c, self_y ?g ! r)" by blast
  then show ?thesis using n u by blast
qed






text \<open>
  C10 (stated for strictly increasing coordinates).  On an object with strictly
  increasing coordinates and velocity arrays of the shape of the grid, every round of
  the seeding loop from a state of the loop appends a streamline of at least three
  points, and so every streamline the constructor returns has at least three points.
\<close>

theorem streamlines_have_three_points:
  assumes "well_formed s" and "increasing (self_x s)" and "increasing (self_y s)"
  shows "(covers_initial s st \<and> \<not> all_used (used st) \<and> seed_step s st = Inr st' \<longrightarrow>
            (\<exists>xs ys. streamlines st' = streamlines st @ [(xs, ys)]
                \<and> 3 \<le> length xs \<and> length ys = length xs))
     \<and> (Streamlines_init s = Some (Inr fin) \<and> (px, py) \<in> set (streamlines fin) \<longrightarrow>
            3 \<le> length px \<and> length py = length px)"
proof -
  have round: "\<exists>xs ys. streamlines b = streamlines a @ [(xs, ys)] \<and> 3 \<le> length xs \<and> length ys = length xs"
    if "covers_initial s a" "\<not> all_used (used a)" "seed_step s a = Inr b" for a b
    using seed_step_three [OF assms covers_initial_shape [OF assms(1) that(1)] that(2,3)] .
  let ?I = "\<lambda>a. covers_initial s a
      \<and> (\<forall>(xs, ys) \<in> set (streamlines a). 3 \<le> length xs \<and> length ys = length xs)"
  have all: "3 \<le> length px \<and> length py = length px"
    if run: "Streamlines_init s = Some (Inr fin)" and mem: "(px, py) \<in> set (streamlines fin)"
  proof -
    have "?I fin"
    proof (rule Streamlines_init_invariant [OF run, of ?I])
      fix m0 assume "init_used s = Inr m0"
      then show "?I \<lparr>used = m0, streamlines = []\<rparr>" by (simp add: covers_initial_start)
    next
      fix a b assume I: "?I a" and nf: "\<not> all_used (used a)" and step: "seed_step s a = Inr b"
      from round [OF _ nf step] I
      obtain xs ys where "streamlines b = streamlines a @ [(xs, ys)]" "3 \<le> length xs"
          "length ys = length xs" by blast
      then show "?I b" using I covers_initial_step [OF _ step] by auto
    qed
    then show ?thesis using mem by blast
  qed
  show ?thesis using round [of st st'] all by blast
qed

theorem streamlines_have_three_points_witness:
  "well_formed (grid3 [0, 1, 2] 1 2 2500)
   \<and> increasing (self_x (grid3 [0, 1, 2] 1 2 2500)) \<and> increasing (self_y (grid3 [0, 1, 2] 1 2 2500))
   \<and> covers_initial (grid3 [0, 1, 2] 1 2 2500) \<lparr>used = ring3, streamlines = []\<rparr>
   \<and> \<not> all_used ring3
   \<and> seed_step (grid3 [0, 1, 2] 1 2 2500) \<lparr>used = ring3, streamlines = []\<rparr>
       = Inr \<lparr>used = full3, streamlines = [([0, 1, 2], [1, 1, 1])]\<rparr>
   \<and> Streamlines_init (grid3 [0, 1, 2] 1 2 2500)
       = Some (Inr \<lparr>used = full3, streamlines = [([0, 1, 2], [1, 1, 1])]\<rparr>)
   \<and> ([0, 1, 2], [1, 1, 1]) \<in> set (streamlines \<lparr>used = full3, streamlines = [([0, 1, 2], [1, 1, 1])]\<rparr>)
   \<and> 3 \<le> length [0, 1, 2 :: real] \<and> length [1, 1, 1 :: real] = length [0, 1, 2 :: real]"
proof -
  let ?g = "grid3 [0, 1, 2] 1 2 2500"
  have h: "well_formed ?g" "increasing (self_x ?g)" "increasing (self_y ?g)"
    by (simp_all add: grid3_well_formed increasing_def)
  have c: "covers_initial ?g \<lparr>used = ring3, streamlines = []\<rparr>"
    by (simp add: covers_initial_def grid3_init count_ring3)
  note w = streamlines_have_three_points [OF h, of "\<lparr>used = ring3, streamlines = []\<rparr>"
      "\<lparr>used = full3, streamlines = [([0, 1, 2], [1, 1, 1])]\<rparr>"
      "\<lparr>used = full3, streamlines = [([0, 1, 2], [1, 1, 1])]\<rparr>" "[0, 1, 2]" "[1, 1, 1]"]
  show ?thesis using w h c unit_step unit_run ring3_facts(1) by simp
qed

text \<open>
  C10 as stated fails: the x axis \<open>2, 1, 0\<close> is strictly monotonic, and the round of the
  seeding loop from the state on entry appends a streamline of the single point
  \<open>(1, 1)\<close>, the seed.
\<close>

theorem falling_grid_single_point:
  "falling (self_x (grid3 [2, 1, 0] (1 / 8) 2 2500))
   \<and> increasing (self_y (grid3 [2, 1, 0] (1 / 8) 2 2500))
   \<and> init_used (grid3 [2, 1, 0] (1 / 8) 2 2500) = Inr ring3
   \<and> seed_step (grid3 [2, 1, 0] (1 / 8) 2 2500) \<lparr>used = ring3, streamlines = []\<rparr>
       = Inr \<lparr>used = ring3, streamlines = [([1], [1])]\<rparr>
   \<and> length [1 :: real] < 3"
  by (simp add: grid3_init falling_step increasing_def falling_def)

end
